theory Spec2Isabelle
  imports Complex_Main "HOL-Library.Multiset"
begin

section \<open>Santa route planner: data model\<close>

text \<open>
  The planner of \<^verbatim>\<open>santa_planner.py\<close> keeps its tables as pandas frames. A frame is
  modelled as the list of its rows, in row order. A row of the children frame carries
  its index label (\<open>idx\<close>, the label pandas gives a row when the sheet is read and
  keeps through filtering, copying, \<open>concat\<close> and \<open>drop\<close>) next to the columns
  the planner reads. Numbers are modelled as reals and the arithmetic of the first part
  is exact; where the program's rounding or wrapping decides a comparison, the section on
  the number format of the columns models the stored results.
\<close>

type_synonym coord = "real \<times> real"

record child_row =
  idx :: nat
  child :: int
  latitude :: real
  longitude :: real
  wish :: int

record article_row =
  article :: int
  weight :: real
  volume :: real

text \<open>
  The fields \<open>load_data\<close> sets on the planner object; \<open>good_children\<close> is the frame
  of the children whose \<open>naughty\<close> column is 0.
\<close>

record planner =
  articles :: "article_row list"
  max_weight :: real
  max_volume :: real
  speed_kmh :: real
  time_per_stop_min :: real
  good_children :: "child_row list"

definition north_pole :: coord where
  "north_pole = (90, 0)"

datatype error = IndexError | NonFinite

section \<open>GeoMetric: \<open>haversine_distance\<close>\<close>

definition radians :: "real \<Rightarrow> real" where
  "radians x = x * pi / 180"

text \<open>
  \<open>math.atan2 y x\<close>, the angle of the point \<open>(x, y)\<close> in \<open>(-pi, pi]\<close>, on the reals.
\<close>

definition atan2 :: "real \<Rightarrow> real \<Rightarrow> real" where
  "atan2 y x =
     (if 0 < x then arctan (y / x)
      else if x < 0 then (if 0 \<le> y then arctan (y / x) + pi else arctan (y / x) - pi)
      else if 0 < y then pi / 2
      else if y < 0 then - (pi / 2)
      else 0)"

text \<open>The quantity \<open>a\<close> of \<open>haversine_distance\<close> (the haversine of the central angle).\<close>

definition haversine_a :: "coord \<Rightarrow> coord \<Rightarrow> real" where
  "haversine_a coord1 coord2 =
     (let lat1 = radians (fst coord1); lon1 = radians (snd coord1);
          lat2 = radians (fst coord2); lon2 = radians (snd coord2);
          dlat = lat2 - lat1;
          dlon = lon2 - lon1
      in (sin (dlat / 2))\<^sup>2 + cos lat1 * cos lat2 * (sin (dlon / 2))\<^sup>2)"

text \<open>
  \<open>haversine_distance\<close> in exact arithmetic. \<open>math.sqrt\<close> raises on a negative
  argument; on the reals \<open>a\<close> lies in \<open>[0, 1]\<close> for all coordinates (lemma
  \<open>haversine_a_range\<close> below), so this function is total. The program computes
  \<open>a\<close> in doubles: for nearly antipodal points, such as \<open>(12, 0)\<close> and
  \<open>(-12, 180)\<close>, where \<open>a\<close> is exactly 1, the rounded \<open>a\<close> is
  \<open>1.0000000000000002\<close> and \<open>math.sqrt(1 - a)\<close> raises \<open>ValueError\<close>. That
  exception, and the last bits of a distance, are not part of this function.
\<close>

definition haversine_distance :: "coord \<Rightarrow> coord \<Rightarrow> real" where
  "haversine_distance coord1 coord2 =
     (let a = haversine_a coord1 coord2;
          c = 2 * atan2 (sqrt a) (sqrt (1 - a));
          radius = 6371
      in radius * c)"

section \<open>CapacityModel\<close>

text \<open>
  \<open>get_article_info\<close>: the rows of the articles frame with the given identifier;
  none gives \<open>(0.0, 0.0)\<close>, otherwise the first row's weight and volume.
\<close>

definition get_article_info :: "planner \<Rightarrow> int \<Rightarrow> real \<times> real" where
  "get_article_info p article_id =
     (let article_row = filter (\<lambda>r. article r = article_id) (articles p)
      in if length article_row = 0 then (0, 0)
         else (weight (hd article_row), volume (hd article_row)))"

text \<open>
  \<open>calculate_load_requirements\<close>: \<open>value_counts\<close> of the \<open>wish\<close> column as a
  dictionary, here the list of its items (one per distinct wish, with the number of rows
  that have it). The planner only sums over the items and sorts them by article, so their
  order in the dictionary does not matter.
\<close>

definition calculate_load_requirements :: "child_row list \<Rightarrow> (int \<times> int) list" where
  "calculate_load_requirements children_subset =
     (let wishes = map wish children_subset
      in map (\<lambda>a. (a, int (count_list wishes a))) (remdups wishes))"

text \<open>The body of the loop of \<open>can_fit_in_sleigh\<close>, on the pair of running totals.\<close>

definition add_article :: "planner \<Rightarrow> int \<times> int \<Rightarrow> real \<times> real \<Rightarrow> real \<times> real" where
  "add_article p item totals =
     (let (weight, volume) = get_article_info p (fst item)
      in (fst totals + weight * real_of_int (snd item),
          snd totals + volume * real_of_int (snd item)))"

definition can_fit_in_sleigh :: "planner \<Rightarrow> (int \<times> int) list \<Rightarrow> bool" where
  "can_fit_in_sleigh p article_counts =
     (let totals = fold (add_article p) article_counts (0, 0)
      in fst totals \<le> max_weight p \<and> snd totals \<le> max_volume p)"

text \<open>
  The sums the specification words \<open>fits\<close> with: an item missing from the catalog
  weighs nothing and takes no room.
\<close>

definition item_weight :: "planner \<Rightarrow> int \<Rightarrow> real" where
  "item_weight p a = (case find (\<lambda>r. article r = a) (articles p) of None \<Rightarrow> 0 | Some r \<Rightarrow> weight r)"

definition item_volume :: "planner \<Rightarrow> int \<Rightarrow> real" where
  "item_volume p a = (case find (\<lambda>r. article r = a) (articles p) of None \<Rightarrow> 0 | Some r \<Rightarrow> volume r)"

definition fits_spec :: "planner \<Rightarrow> (int \<times> int) list \<Rightarrow> bool" where
  "fits_spec p demand =
     ((\<Sum>e\<leftarrow>demand. real_of_int (snd e) * item_weight p (fst e)) \<le> max_weight p \<and>
      (\<Sum>e\<leftarrow>demand. real_of_int (snd e) * item_volume p (fst e)) \<le> max_volume p)"

section \<open>Nearest-neighbour selection\<close>

text \<open>
  The series of distances from a cursor to the rows of a frame: each row with its
  distance, in row order.
\<close>

definition distances_from :: "coord \<Rightarrow> child_row list \<Rightarrow> (child_row \<times> real) list" where
  "distances_from current_coord df =
     map (\<lambda>row. (row, haversine_distance current_coord (latitude row, longitude row))) df"

text \<open>
  \<open>Series.idxmin\<close>: the first entry that holds the least value. \<open>idxmin_from\<close>
  scans with the best entry so far; only a strictly smaller value replaces it. On an
  empty series pandas raises; the planner calls \<open>idxmin\<close> inside
  \<open>while len(remaining) > 0\<close> only, and the model gives no equation for \<open>[]\<close>.
\<close>

fun idxmin_from :: "'a \<times> real \<Rightarrow> ('a \<times> real) list \<Rightarrow> 'a \<times> real" where
  "idxmin_from best [] = best"
| "idxmin_from best (x # xs) = idxmin_from (if snd x < snd best then x else best) xs"

fun idxmin :: "('a \<times> real) list \<Rightarrow> 'a" where
  "idxmin (d # ds) = fst (idxmin_from d ds)"

text \<open>\<open>DataFrame.drop\<close> of one label, and of the labels of a frame.\<close>

definition drop_label :: "nat \<Rightarrow> child_row list \<Rightarrow> child_row list" where
  "drop_label i df = filter (\<lambda>r. idx r \<noteq> i) df"

definition drop_labels :: "nat list \<Rightarrow> child_row list \<Rightarrow> child_row list" where
  "drop_labels ls df = filter (\<lambda>r. idx r \<notin> set ls) df"

text \<open>
  \<open>nearest_neighbor_from_point\<close>: the loop state is the cursor, the frame of the rows
  still to order and the rows ordered so far. \<open>drop\<close> removes the row just chosen, so
  the frame gets shorter in every round.
\<close>

function nearest_neighbor_loop ::
  "coord \<Rightarrow> child_row list \<Rightarrow> child_row list \<Rightarrow> child_row list" where
  "nearest_neighbor_loop current_coord remaining ordered =
     (if length remaining > 0 then
        (let distances = distances_from current_coord remaining;
             nearest_child = idxmin distances
         in nearest_neighbor_loop (latitude nearest_child, longitude nearest_child)
              (drop_label (idx nearest_child) remaining) (ordered @ [nearest_child]))
      else ordered)"
  by pat_completeness auto

lemma idxmin_from_mem: "idxmin_from best xs \<in> set (best # xs)"
  by (induction xs arbitrary: best) auto

lemma idxmin_mem: "ds \<noteq> [] \<Longrightarrow> idxmin ds \<in> fst ` set ds"
proof (cases ds)
  case Nil
  assume "ds \<noteq> []"
  with Nil show ?thesis by simp
next
  case (Cons d ds')
  have "idxmin_from d ds' \<in> set (d # ds')" by (rule idxmin_from_mem)
  then show ?thesis unfolding Cons by (simp only: idxmin.simps) (rule imageI)
qed

lemma fst_distances_from: "fst ` set (distances_from c df) = set df"
  by (force simp: distances_from_def)

lemma nearest_mem: "df \<noteq> [] \<Longrightarrow> idxmin (distances_from c df) \<in> set df"
proof -
  assume "df \<noteq> []"
  then have "distances_from c df \<noteq> []" by (simp add: distances_from_def)
  then have "idxmin (distances_from c df) \<in> fst ` set (distances_from c df)" by (rule idxmin_mem)
  then show ?thesis by (simp only: fst_distances_from)
qed

lemma length_drop_label: "r \<in> set df \<Longrightarrow> length (drop_label (idx r) df) < length df"
  unfolding drop_label_def by (rule length_filter_less [of r]) simp_all

termination nearest_neighbor_loop
proof (relation "measure (\<lambda>(c, remaining, ordered). length remaining)")
  show "wf (measure (\<lambda>(c, remaining, ordered). length remaining))" by simp
next
  fix current_coord :: coord and remaining ordered :: "child_row list" and x xa
  assume "0 < length remaining" "x = distances_from current_coord remaining" "xa = idxmin x"
  then have "xa \<in> set remaining" by (simp add: nearest_mem)
  then show "(((latitude xa, longitude xa), drop_label (idx xa) remaining, ordered @ [xa]),
              current_coord, remaining, ordered)
             \<in> measure (\<lambda>(c, remaining, ordered). length remaining)"
    by (simp add: length_drop_label)
qed

declare nearest_neighbor_loop.simps [simp del]

definition nearest_neighbor_from_point :: "coord \<Rightarrow> child_row list \<Rightarrow> child_row list" where
  "nearest_neighbor_from_point start_coord remaining_children =
     (if length remaining_children = 0 then []
      else nearest_neighbor_loop start_coord remaining_children [])"

section \<open>TripBuilder: \<open>greedy_cluster_by_capacity\<close>\<close>

text \<open>
  \<open>distances.sort_values().index\<close>: the rows of the frame in ascending order of
  distance. The sort is modelled by insertion sort (\<open>sort_key\<close>), which leaves rows at
  equal distance in row order. The default sort kind of pandas is not stable: it promises
  the ascending order only, and rows at equal distance can come out in another order. No
  theorem of this theory depends on the order among equal distances.
\<close>

definition sorted_indices :: "coord \<Rightarrow> child_row list \<Rightarrow> child_row list" where
  "sorted_indices current_coord trip_remaining =
     map fst (sort_key snd (distances_from current_coord trip_remaining))"

text \<open>
  The \<open>for idx in sorted_indices\<close> loop: the first candidate whose row, appended to the
  current trip, still fits the sleigh; \<open>None\<close> when the loop ends with
  \<open>added_any\<close> false.
\<close>

fun first_fit :: "planner \<Rightarrow> child_row list \<Rightarrow> child_row list \<Rightarrow> child_row option" where
  "first_fit p current_trip [] = None"
| "first_fit p current_trip (r # rs) =
     (let test_trip = current_trip @ [r];
          article_counts = calculate_load_requirements test_trip
      in if can_fit_in_sleigh p article_counts then Some r
         else first_fit p current_trip rs)"

text \<open>The inner \<open>while len(trip_remaining) > 0\<close> loop, which builds one trip.\<close>

function build_trip ::
  "planner \<Rightarrow> child_row list \<Rightarrow> coord \<Rightarrow> child_row list \<Rightarrow> child_row list" where
  "build_trip p current_trip current_coord trip_remaining =
     (if length trip_remaining > 0 then
        (case first_fit p current_trip (sorted_indices current_coord trip_remaining) of
           None \<Rightarrow> current_trip
         | Some r \<Rightarrow>
             build_trip p (current_trip @ [r]) (latitude r, longitude r)
               (drop_label (idx r) trip_remaining))
      else current_trip)"
  by pat_completeness auto

lemma set_sorted_indices: "set (sorted_indices c df) = set df"
  by (simp add: sorted_indices_def fst_distances_from)

lemma first_fit_mem: "first_fit p t cs = Some r \<Longrightarrow> r \<in> set cs"
  by (induction cs) (auto simp: Let_def split: if_splits)

termination build_trip
proof (relation "measure (\<lambda>(p, t, c, trip_remaining). length trip_remaining)")
  show "wf (measure (\<lambda>(p, t, c, trip_remaining). length trip_remaining))" by simp
next
  fix p :: planner and current_trip trip_remaining :: "child_row list"
    and current_coord :: coord and r
  assume "first_fit p current_trip (sorted_indices current_coord trip_remaining) = Some r"
  then have "r \<in> set trip_remaining" using first_fit_mem set_sorted_indices by blast
  then show "((p, current_trip @ [r], (latitude r, longitude r), drop_label (idx r) trip_remaining),
               p, current_trip, current_coord, trip_remaining)
             \<in> measure (\<lambda>(p, t, c, trip_remaining). length trip_remaining)"
    by (simp add: length_drop_label)
qed

declare build_trip.simps [simp del]

text \<open>
  The outer \<open>while len(remaining) > 0\<close> loop. Nothing bounds the number of its rounds:
  a round whose trip stays empty leaves \<open>remaining\<close> as it was. The result is
  \<open>None\<close> when the loop never ends.
\<close>

partial_function (option) cluster_loop ::
  "planner \<Rightarrow> child_row list \<Rightarrow> child_row list list \<Rightarrow> child_row list list option" where
  "cluster_loop p remaining trips =
     (if length remaining > 0 then
        (let current_trip = build_trip p [] north_pole remaining
         in if length current_trip > 0
            then cluster_loop p (drop_labels (map idx current_trip) remaining)
                   (trips @ [current_trip])
            else cluster_loop p remaining trips)
      else Some trips)"

definition greedy_cluster_by_capacity :: "planner \<Rightarrow> child_row list list option" where
  "greedy_cluster_by_capacity p = cluster_loop p (good_children p) []"

section \<open>RouteSequencer and the flat plan\<close>

definition optimize_trip_route :: "planner \<Rightarrow> child_row list \<Rightarrow> child_row list" where
  "optimize_trip_route p trip = nearest_neighbor_from_point north_pole trip"

text \<open>
  An entry of the route plan: the dictionary with the keys \<open>stop\<close>, \<open>article\<close> and
  \<open>pieces\<close>; Python's \<open>None\<close> is \<open>None\<close>.
\<close>

record route_entry =
  stop :: int
  entry_article :: "real option"
  pieces :: "real option"

text \<open>
  The body of the loop of \<open>generate_route_plan\<close> for one trip: the refill
  instructions, one for each item of the trip's load in ascending order of the article,
  then the delivery stops in the order of the optimized route.
\<close>

definition refill_entries :: "child_row list \<Rightarrow> route_entry list" where
  "refill_entries trip =
     map (\<lambda>item. \<lparr>stop = 0, entry_article = Some (real_of_int (fst item)),
                   pieces = Some (real_of_int (snd item))\<rparr>)
       (sort_key fst (calculate_load_requirements trip))"

definition delivery_entries :: "planner \<Rightarrow> child_row list \<Rightarrow> route_entry list" where
  "delivery_entries p trip =
     map (\<lambda>c. \<lparr>stop = child c, entry_article = None, pieces = None\<rparr>)
       (optimize_trip_route p trip)"

definition plan_of_trips :: "planner \<Rightarrow> child_row list list \<Rightarrow> route_entry list" where
  "plan_of_trips p trips = concat (map (\<lambda>trip. refill_entries trip @ delivery_entries p trip) trips)"

definition generate_route_plan :: "planner \<Rightarrow> route_entry list option" where
  "generate_route_plan p = map_option (plan_of_trips p) (greedy_cluster_by_capacity p)"

section \<open>CostModel\<close>

text \<open>
  The loop of \<open>calculate_total_distance\<close> on its two variables. A delivery stop is
  looked up among the good children by its identifier; \<open>.iloc[0]\<close> takes the first
  match and raises \<open>IndexError\<close> when there is none.
\<close>

fun distance_loop ::
  "planner \<Rightarrow> real \<Rightarrow> coord \<Rightarrow> route_entry list \<Rightarrow> error + real \<times> coord" where
  "distance_loop p total_distance current_coord [] = Inr (total_distance, current_coord)"
| "distance_loop p total_distance current_coord (s # route_plan) =
     (if stop s = 0 then
        (if current_coord \<noteq> north_pole
         then distance_loop p (total_distance + haversine_distance current_coord north_pole)
                north_pole route_plan
         else distance_loop p total_distance current_coord route_plan)
      else
        (case filter (\<lambda>c. child c = stop s) (good_children p) of
           [] \<Rightarrow> Inl IndexError
         | c # _ \<Rightarrow>
             (let child_coord = (latitude c, longitude c)
              in distance_loop p (total_distance + haversine_distance current_coord child_coord)
                   child_coord route_plan)))"

definition calculate_total_distance :: "planner \<Rightarrow> route_entry list \<Rightarrow> error + real" where
  "calculate_total_distance p route_plan =
     (case distance_loop p 0 north_pole route_plan of
        Inl e \<Rightarrow> Inl e
      | Inr (total_distance, current_coord) \<Rightarrow>
          Inr (total_distance + haversine_distance current_coord north_pole))"

text \<open>
  \<open>calculate_total_time\<close>. The speed is a numpy number: a division by a speed of zero
  raises nothing and gives an infinity or a NaN, which is no real; the model returns
  \<open>NonFinite\<close> there.
\<close>

definition delivery_stops :: "route_entry list \<Rightarrow> nat" where
  "delivery_stops route_plan = length (filter (\<lambda>s. stop s \<noteq> 0) route_plan)"

definition calculate_total_time :: "planner \<Rightarrow> route_entry list \<Rightarrow> error + real" where
  "calculate_total_time p route_plan =
     (case calculate_total_distance p route_plan of
        Inl e \<Rightarrow> Inl e
      | Inr distance \<Rightarrow>
          if speed_kmh p = 0 then Inl NonFinite
          else
            (let travel_time_hours = distance / speed_kmh p;
                 stop_time_hours = (real (delivery_stops route_plan) * time_per_stop_min p) / 60
             in Inr (travel_time_hours + stop_time_hours)))"

text \<open>The two counts \<open>save_statistics\<close> derives from the route plan.\<close>

definition total_stops :: "route_entry list \<Rightarrow> nat" where
  "total_stops route_plan = length (filter (\<lambda>s. stop s \<noteq> 0) route_plan)"

definition total_refills :: "route_entry list \<Rightarrow> nat" where
  "total_refills route_plan = length (filter (\<lambda>s. stop s = 0) route_plan)"

text \<open>
  The walk the specification words \<open>totalDistance\<close> with, from a cursor: a refill
  marker met away from the depot adds the way back to the depot and puts the cursor
  there, a refill marker met at the depot adds zero, a delivery stop adds the way to the
  stop and moves the cursor to it, and the end of the plan adds the way back to the
  depot. A stop that names no child has no location (\<open>IndexError\<close>).
\<close>

definition add_distance :: "real \<Rightarrow> error + real \<Rightarrow> error + real" where
  "add_distance d rest = (case rest of Inl e \<Rightarrow> Inl e | Inr x \<Rightarrow> Inr (d + x))"

fun total_distance_spec :: "planner \<Rightarrow> coord \<Rightarrow> route_entry list \<Rightarrow> error + real" where
  "total_distance_spec p cursor [] = Inr (haversine_distance cursor north_pole)"
| "total_distance_spec p cursor (s # plan) =
     (if stop s = 0 then
        (if cursor \<noteq> north_pole
         then add_distance (haversine_distance cursor north_pole)
                (total_distance_spec p north_pole plan)
         else add_distance 0 (total_distance_spec p cursor plan))
      else
        (case find (\<lambda>c. child c = stop s) (good_children p) of
           None \<Rightarrow> Inl IndexError
         | Some c \<Rightarrow>
             add_distance (haversine_distance cursor (latitude c, longitude c))
               (total_distance_spec p (latitude c, longitude c) plan)))"

text \<open>
  The catalog as the data model has it: no article has a negative weight or volume.
\<close>

definition catalog_nonneg :: "planner \<Rightarrow> bool" where
  "catalog_nonneg p = list_all (\<lambda>r. 0 \<le> weight r \<and> 0 \<le> volume r) (articles p)"

text \<open>
  The invariants of the two loops of the trip builder: the trip under construction is
  empty or fits the sleigh; every trip saved so far is non-empty and fits the sleigh.
\<close>

definition loaded_ok :: "planner \<Rightarrow> child_row list \<Rightarrow> bool" where
  "loaded_ok p t = (t = [] \<or> can_fit_in_sleigh p (calculate_load_requirements t))"

definition trips_ok :: "planner \<Rightarrow> child_row list list \<Rightarrow> bool" where
  "trips_ok p trips = list_all (\<lambda>t. t \<noteq> [] \<and> can_fit_in_sleigh p (calculate_load_requirements t)) trips"

section \<open>The capacity check in the number format of the columns\<close>



text \<open>
  The int64 format: an integer result is kept modulo \<open>2 ^ 64\<close>, in the range from
  \<open>- 2 ^ 63\<close> up to \<open>2 ^ 63 - 1\<close> (the numbers of an int64 column are integers).
\<close>

definition int64_store :: "real \<Rightarrow> real" where
  "int64_store x = real_of_int ((\<lfloor>x\<rfloor> + 2 ^ 63) mod 2 ^ 64 - 2 ^ 63)"









section \<open>Example inputs\<close>


text \<open>
  One good child at the depot and one on the equator, each wishing a different article,
  and a sleigh that carries both wishes at once.
\<close>

definition pole_child :: child_row where
  "pole_child = \<lparr>idx = 0, child = 1, latitude = 90, longitude = 0, wish = 1\<rparr>"

definition equator_child :: child_row where
  "equator_child = \<lparr>idx = 1, child = 2, latitude = 0, longitude = 0, wish = 2\<rparr>"

definition two_wishes :: planner where
  "two_wishes =
     \<lparr>articles = [\<lparr>article = 1, weight = 2, volume = 1\<rparr>, \<lparr>article = 2, weight = 3, volume = 5\<rparr>],
      max_weight = 10, max_volume = 10, speed_kmh = 100, time_per_stop_min = 6,
      good_children = [pole_child, equator_child]\<rparr>"

text \<open>
  A flat plan for these two children in two trips, with a third refill marker at its end,
  and the same plan followed by a stop that names no child.
\<close>

definition two_trip_plan :: "route_entry list" where
  "two_trip_plan =
     [\<lparr>stop = 0, entry_article = Some 1, pieces = Some 1\<rparr>,
      \<lparr>stop = 1, entry_article = None, pieces = None\<rparr>,
      \<lparr>stop = 0, entry_article = Some 2, pieces = Some 1\<rparr>,
      \<lparr>stop = 2, entry_article = None, pieces = None\<rparr>,
      \<lparr>stop = 0, entry_article = Some 1, pieces = Some 1\<rparr>]"

definition unknown_stop_plan :: "route_entry list" where
  "unknown_stop_plan = two_trip_plan @ [\<lparr>stop = 7, entry_article = None, pieces = None\<rparr>]"

text \<open>
  The same children with a sleigh that carries weight 4 only, so that the two wishes
  (weights 2 and 3) need a trip each; and a single child whose wish alone (weight 3) is
  over the weight limit 2.
\<close>

definition small_sleigh :: planner where
  "small_sleigh =
     \<lparr>articles = [\<lparr>article = 1, weight = 2, volume = 1\<rparr>, \<lparr>article = 2, weight = 3, volume = 5\<rparr>],
      max_weight = 4, max_volume = 10, speed_kmh = 100, time_per_stop_min = 6,
      good_children = [pole_child, equator_child]\<rparr>"

definition too_heavy :: planner where
  "too_heavy =
     \<lparr>articles = [\<lparr>article = 1, weight = 2, volume = 1\<rparr>, \<lparr>article = 2, weight = 3, volume = 5\<rparr>],
      max_weight = 2, max_volume = 10, speed_kmh = 100, time_per_stop_min = 6,
      good_children = [equator_child]\<rparr>"








section \<open>GeoMetric: the distance in exact arithmetic\<close>

text \<open>
  In exact arithmetic the distance is symmetric, zero from a point to itself and never
  negative. These facts serve the evaluation of the examples below; they say nothing
  about the points where the program's doubles leave the domain of the square root.
\<close>

lemma haversine_a_sym: "haversine_a p q = haversine_a q p"
proof -
  have s: "\<And>x y::real. (sin ((x - y) / 2))\<^sup>2 = (sin ((y - x) / 2))\<^sup>2"
  proof -
    fix x y :: real
    have "(x - y) / 2 = - ((y - x) / 2)" by argo
    then have "sin ((x - y) / 2) = - sin ((y - x) / 2)" by (metis sin_minus)
    then show "(sin ((x - y) / 2))\<^sup>2 = (sin ((y - x) / 2))\<^sup>2" by simp
  qed
  show ?thesis
    unfolding haversine_a_def Let_def
    by (simp add: s [of "radians (fst q)" "radians (fst p)"] s [of "radians (snd q)" "radians (snd p)"] mult.commute)
qed

lemma haversine_a_same: "haversine_a p p = 0"
  by (simp add: haversine_a_def)

lemma half_bounds:
  fixes c :: real
  assumes "- 1 \<le> c" "c \<le> 1"
  shows "0 \<le> (1 - c) / 2" "(1 - c) / 2 \<le> 1" "0 \<le> (1 + c) / 2" "(1 + c) / 2 \<le> 1"
  using assms by auto

lemma haversine_a_range: "0 \<le> haversine_a p q \<and> haversine_a p q \<le> 1"
proof -
  define x where "x = radians (fst p)"
  define y where "y = radians (fst q)"
  define s where "s = (sin ((radians (snd q) - radians (snd p)) / 2))\<^sup>2"
  have a: "haversine_a p q = (sin ((y - x) / 2))\<^sup>2 + cos x * cos y * s"
    by (simp add: haversine_a_def x_def y_def s_def Let_def)
  have s01: "0 \<le> s" "s \<le> 1"
    by (simp_all add: s_def abs_square_le_1)
  have h: "(sin ((y - x) / 2))\<^sup>2 = (1 - cos (y - x)) / 2"
  proof -
    define t where "t = (y - x) / 2"
    have yx: "y - x = 2 * t" by (simp add: t_def)
    have "cos (2 * t) = 1 - 2 * (sin t)\<^sup>2" by (rule cos_double_sin)
    then show ?thesis unfolding yx by simp
  qed
  have c1: "cos (y - x) = cos y * cos x + sin y * sin x" by (rule cos_diff)
  have c2: "cos (y + x) = cos y * cos x - sin y * sin x" by (rule cos_add)
  have e0: "(sin ((y - x) / 2))\<^sup>2 + cos x * cos y * s
      = (1 - s) * ((1 - cos (y - x)) / 2) + s * ((1 + cos (y + x)) / 2)"
    unfolding h c1 c2 by (simp add: field_simps)
  have b1: "0 \<le> (1 - cos (y - x)) / 2" "(1 - cos (y - x)) / 2 \<le> 1"
    by (rule half_bounds [OF cos_ge_minus_one cos_le_one])+
  have b2: "0 \<le> (1 + cos (y + x)) / 2" "(1 + cos (y + x)) / 2 \<le> 1"
    by (rule half_bounds [OF cos_ge_minus_one cos_le_one])+
  have lo: "0 \<le> (1 - s) * ((1 - cos (y - x)) / 2) + s * ((1 + cos (y + x)) / 2)"
    using s01 b1 b2 by (intro add_nonneg_nonneg mult_nonneg_nonneg) simp_all
  have "(1 - s) * ((1 - cos (y - x)) / 2) \<le> (1 - s) * 1"
    using s01 b1 by (intro mult_left_mono) simp_all
  moreover have "s * ((1 + cos (y + x)) / 2) \<le> s * 1"
    using s01 b2 by (intro mult_left_mono) simp_all
  ultimately have hi: "(1 - s) * ((1 - cos (y - x)) / 2) + s * ((1 + cos (y + x)) / 2) \<le> 1"
    by simp
  show ?thesis using lo hi by (simp add: a e0)
qed

lemma atan2_nonneg: "0 \<le> y \<Longrightarrow> 0 \<le> x \<Longrightarrow> 0 \<le> atan2 y x"
  by (auto simp: atan2_def arctan_le_zero_iff zero_le_arctan_iff)

lemma haversine_distance_sym: "haversine_distance a b = haversine_distance b a"
  by (simp add: haversine_distance_def haversine_a_sym [of a b])

lemma haversine_distance_same: "haversine_distance a a = 0"
  by (simp add: haversine_distance_def haversine_a_same atan2_def)

lemma haversine_distance_nonneg: "0 \<le> haversine_distance a b"
  using haversine_a_range [of a b]
  by (simp add: haversine_distance_def Let_def atan2_nonneg)

text \<open>
  At \<open>(12, 0)\<close> and \<open>(-12, 180)\<close> the exact \<open>a\<close> is 1, the upper end of the
  domain of \<open>sqrt (1 - a)\<close>: any rounding of \<open>a\<close> upwards leaves the domain. The
  exact distance there is half the circumference.
\<close>

lemma haversine_a_antipodal: "haversine_a (12, 0) (-12, 180) = 1"
proof -
  have r1: "(- (pi / 15) - pi / 15) / 2 = - (pi / 15)" by simp
  have r2: "radians 180 - radians 0 = pi" by (simp add: radians_def)
  have r3: "radians 12 = pi / 15" "radians (-12) = - (pi / 15)" by (simp_all add: radians_def)
  have "haversine_a (12, 0) (-12, 180)
      = (sin (- (pi / 15)))\<^sup>2 + cos (pi / 15) * cos (- (pi / 15)) * (sin (pi / 2))\<^sup>2"
    unfolding haversine_a_def Let_def fst_conv snd_conv r2 r3 r1 ..
  also have "\<dots> = (sin (pi / 15))\<^sup>2 + (cos (pi / 15))\<^sup>2"
    by (simp add: power2_eq_square)
  also have "\<dots> = 1" by simp
  finally show ?thesis .
qed

lemma haversine_distance_antipodal: "haversine_distance (12, 0) (-12, 180) = 6371 * pi"
  by (simp add: haversine_distance_def haversine_a_antipodal atan2_def)

section \<open>CapacityModel: the exact totals are the two sums\<close>

lemma find_filter: "find P xs = (case filter P xs of [] \<Rightarrow> None | x # _ \<Rightarrow> Some x)"
  by (induction xs) auto

lemma get_article_info_eq: "get_article_info p a = (item_weight p a, item_volume p a)"
proof (cases "find (\<lambda>r. article r = a) (articles p)")
  case None
  then have "filter (\<lambda>r. article r = a) (articles p) = []"
    by (simp add: find_filter split: list.splits)
  with None show ?thesis by (simp add: get_article_info_def item_weight_def item_volume_def)
next
  case (Some r)
  then obtain rs where "filter (\<lambda>r. article r = a) (articles p) = r # rs"
    by (auto simp: find_filter split: list.splits)
  with Some show ?thesis by (simp add: get_article_info_def item_weight_def item_volume_def)
qed

lemma fold_add_article:
  "fold (add_article p) demand totals =
     (fst totals + (\<Sum>e\<leftarrow>demand. real_of_int (snd e) * item_weight p (fst e)),
      snd totals + (\<Sum>e\<leftarrow>demand. real_of_int (snd e) * item_volume p (fst e)))"
proof (induction demand arbitrary: totals)
  case Nil
  show ?case by simp
next
  case (Cons e demand)
  have "fold (add_article p) (e # demand) totals = fold (add_article p) demand (add_article p e totals)"
    by simp
  also have "\<dots> = (fst (add_article p e totals) + (\<Sum>e\<leftarrow>demand. real_of_int (snd e) * item_weight p (fst e)),
      snd (add_article p e totals) + (\<Sum>e\<leftarrow>demand. real_of_int (snd e) * item_volume p (fst e)))"
    by (rule Cons.IH)
  also have "\<dots> = (fst totals + (\<Sum>e\<leftarrow>e # demand. real_of_int (snd e) * item_weight p (fst e)),
      snd totals + (\<Sum>e\<leftarrow>e # demand. real_of_int (snd e) * item_volume p (fst e)))"
    by (simp add: add_article_def get_article_info_eq mult.commute add.assoc)
  finally show ?case .
qed

lemma can_fit_in_sleigh_fits_spec: "can_fit_in_sleigh p demand = fits_spec p demand"
  by (simp add: can_fit_in_sleigh_def fits_spec_def fold_add_article)

section \<open>CapacityModel: the check in the number format of the columns\<close>

lemma int64_store_of_int:
  "- (2 ^ 63) \<le> n \<Longrightarrow> n < 2 ^ 63 \<Longrightarrow> int64_store (real_of_int n) = real_of_int n"
  by (simp add: int64_store_def)







section \<open>CostModel: the total distance is the walk of the plan\<close>

lemma add_distance_assoc: "add_distance a (add_distance b r) = add_distance (a + b) r"
  by (cases r) (simp_all add: add_distance_def add.assoc)

lemma add_distance_zero: "add_distance 0 r = r"
  by (cases r) (simp_all add: add_distance_def)

lemma distance_loop_spec:
  "(case distance_loop p acc cur plan of
      Inl e \<Rightarrow> Inl e
    | Inr (t, c) \<Rightarrow> Inr (t + haversine_distance c north_pole))
   = add_distance acc (total_distance_spec p cur plan)"
proof (induction plan arbitrary: acc cur)
  case Nil
  show ?case by (simp add: add_distance_def)
next
  case (Cons s plan)
  show ?case
  proof (cases "stop s = 0")
    case True
    then show ?thesis by (simp add: Cons.IH add_distance_assoc)
  next
    case False
    show ?thesis
    proof (cases "find (\<lambda>c. child c = stop s) (good_children p)")
      case None
      then have "filter (\<lambda>c. child c = stop s) (good_children p) = []"
        by (simp add: find_filter split: list.splits)
      with None False show ?thesis by (simp add: add_distance_def)
    next
      case (Some c)
      then obtain cs where "filter (\<lambda>c. child c = stop s) (good_children p) = c # cs"
        by (auto simp: find_filter split: list.splits)
      with Some False show ?thesis by (simp add: Let_def Cons.IH add_distance_assoc)
    qed
  qed
qed

text \<open>
  C6. For every flat plan, \<open>calculate_total_distance\<close> is the sum of the walk that
  starts with the cursor at the depot: a refill marker met away from the depot adds the
  distance back to the depot and resets the cursor, a refill marker met at the depot adds
  exactly zero, a delivery stop adds the distance from the cursor to the stop and moves
  the cursor there, and the end of the plan adds the distance back to the depot. (A stop
  that names no child makes both fail with \<open>IndexError\<close>.)
\<close>

theorem calculate_total_distance_walk:
  "calculate_total_distance p plan = total_distance_spec p north_pole plan"
  unfolding calculate_total_distance_def
  by (simp only: distance_loop_spec add_distance_zero)

theorem calculate_total_distance_walk_witness:
  "calculate_total_distance two_wishes unknown_stop_plan = Inl IndexError \<and>
   calculate_total_distance two_wishes two_trip_plan = Inr (2 * haversine_distance (0, 0) (90, 0))"
  using calculate_total_distance_walk [of two_wishes unknown_stop_plan]
    calculate_total_distance_walk [of two_wishes two_trip_plan]
  by (simp add: two_wishes_def pole_child_def equator_child_def two_trip_plan_def
      unknown_stop_plan_def north_pole_def add_distance_def haversine_distance_same
      haversine_distance_sym [of "(90, 0)" "(0, 0)"])

section \<open>CostModel: the total time\<close>

lemma two_trip_plan_distance:
  "calculate_total_distance two_wishes two_trip_plan = Inr (2 * haversine_distance (0, 0) (90, 0))"
  by (simp add: calculate_total_distance_def two_wishes_def pole_child_def equator_child_def
      two_trip_plan_def north_pole_def haversine_distance_same Let_def
      haversine_distance_sym [of "(90, 0)" "(0, 0)"])

text \<open>
  C7. For every plan whose distance is \<open>d\<close>, and a speed other than zero,
  \<open>calculate_total_time\<close> is \<open>d\<close> divided by the speed plus the number of delivery
  stops times the minutes per stop, divided by 60; the delivery stops are the entries
  that are no refill markers; so the total time is at least \<open>d\<close> divided by the speed
  whenever the time per stop is not negative.
\<close>

theorem calculate_total_time_formula:
  assumes "speed_kmh p \<noteq> 0" and "calculate_total_distance p plan = Inr d"
  shows "calculate_total_time p plan =
           Inr (d / speed_kmh p
                + real (length (filter (\<lambda>s. stop s \<noteq> 0) plan)) * time_per_stop_min p / 60) \<and>
         length (filter (\<lambda>s. stop s \<noteq> 0) plan) + total_refills plan = length plan \<and>
         (0 \<le> time_per_stop_min p \<longrightarrow>
            (\<exists>t. calculate_total_time p plan = Inr t \<and> d / speed_kmh p \<le> t))"
proof -
  have 1: "calculate_total_time p plan =
           Inr (d / speed_kmh p
                + real (length (filter (\<lambda>s. stop s \<noteq> 0) plan)) * time_per_stop_min p / 60)"
    using assms by (simp add: calculate_total_time_def delivery_stops_def)
  have 2: "length (filter (\<lambda>s. stop s \<noteq> 0) plan) + total_refills plan = length plan"
    using sum_length_filter_compl [of "\<lambda>s. stop s = 0" plan] by (simp add: total_refills_def)
  have 3: "d / speed_kmh p \<le> d / speed_kmh p
                + real (length (filter (\<lambda>s. stop s \<noteq> 0) plan)) * time_per_stop_min p / 60"
    if "0 \<le> time_per_stop_min p"
    using that by simp
  show ?thesis using 1 2 3 by simp
qed

theorem calculate_total_time_formula_witness:
  "speed_kmh two_wishes \<noteq> 0 \<and>
   calculate_total_distance two_wishes two_trip_plan = Inr (2 * haversine_distance (0, 0) (90, 0)) \<and>
   calculate_total_time two_wishes two_trip_plan
     = Inr (2 * haversine_distance (0, 0) (90, 0) / 100 + 2 * 6 / 60) \<and>
   total_refills two_trip_plan = 3 \<and>
   0 \<le> time_per_stop_min two_wishes"
proof -
  have s: "speed_kmh two_wishes \<noteq> 0" by (simp add: two_wishes_def)
  have t: "0 \<le> time_per_stop_min two_wishes" by (simp add: two_wishes_def)
  have f: "length (filter (\<lambda>s. stop s \<noteq> 0) two_trip_plan) = 2"
    by (simp add: two_trip_plan_def)
  have l: "length two_trip_plan = 5" by (simp add: two_trip_plan_def)
  have v: "speed_kmh two_wishes = 100" "time_per_stop_min two_wishes = 6"
    by (simp_all add: two_wishes_def)
  show ?thesis
    using calculate_total_time_formula [OF s two_trip_plan_distance] s t two_trip_plan_distance
    by (simp add: f l v)
qed

section \<open>TripBuilder: what one trip and the loop over trips keep\<close>

lemma cluster_loop_done: "cluster_loop p [] trips = Some trips"
  by (subst cluster_loop.simps) simp

lemma cluster_loop_step:
  "remaining \<noteq> [] \<Longrightarrow> build_trip p [] north_pole remaining \<noteq> [] \<Longrightarrow>
   cluster_loop p remaining trips =
     cluster_loop p (drop_labels (map idx (build_trip p [] north_pole remaining)) remaining)
       (trips @ [build_trip p [] north_pole remaining])"
  by (subst cluster_loop.simps) (simp add: Let_def)

lemma cluster_loop_invariant:
  assumes ret: "cluster_loop p remaining trips = Some result"
    and init: "I remaining trips"
    and step: "\<And>remaining trips. I remaining trips \<Longrightarrow> remaining \<noteq> [] \<Longrightarrow>
       build_trip p [] north_pole remaining \<noteq> [] \<Longrightarrow>
       I (drop_labels (map idx (build_trip p [] north_pole remaining)) remaining)
         (trips @ [build_trip p [] north_pole remaining])"
  shows "I [] result"
proof -
  have "p = p \<longrightarrow> I remaining trips \<longrightarrow> I [] result"
  proof (rule cluster_loop.raw_induct
      [where P = "\<lambda>q remaining trips result. q = p \<longrightarrow> I remaining trips \<longrightarrow> I [] result", OF _ ret])
    fix f :: "planner \<Rightarrow> child_row list \<Rightarrow> child_row list list \<Rightarrow> child_row list list option"
      and q remaining trips result
    assume IH: "\<And>q remaining trips result. f q remaining trips = Some result \<Longrightarrow>
                  q = p \<longrightarrow> I remaining trips \<longrightarrow> I [] result"
      and body: "(if 0 < length remaining then
          (let current_trip = build_trip q [] north_pole remaining
           in if 0 < length current_trip
              then f q (drop_labels (map idx current_trip) remaining) (trips @ [current_trip])
              else f q remaining trips)
        else Some trips) = Some result"
    show "q = p \<longrightarrow> I remaining trips \<longrightarrow> I [] result"
    proof (intro impI)
      assume qp: "q = p" and inv: "I remaining trips"
      show "I [] result"
      proof (cases "remaining = []")
        case True
        with body inv show ?thesis by simp
      next
        case False
        define ct where "ct = build_trip p [] north_pole remaining"
        show ?thesis
        proof (cases "ct = []")
          case True
          with False body have "f q remaining trips = Some result"
            by (simp add: ct_def qp Let_def)
          from IH [OF this] qp inv show ?thesis by simp
        next
          case ne: False
          with False body have r: "f q (drop_labels (map idx ct) remaining) (trips @ [ct]) = Some result"
            by (simp add: ct_def qp Let_def)
          have "I (drop_labels (map idx ct) remaining) (trips @ [ct])"
            unfolding ct_def by (rule step [OF inv False]) (use ne in \<open>simp add: ct_def\<close>)
          with IH [OF r] qp show ?thesis by simp
        qed
      qed
    qed
  qed
  with init show ?thesis by simp
qed

lemma first_fit_fits:
  "first_fit p t cs = Some r \<Longrightarrow> can_fit_in_sleigh p (calculate_load_requirements (t @ [r]))"
  by (induction cs) (auto simp: Let_def split: if_splits)

lemma build_trip_loaded_ok:
  "loaded_ok p t \<Longrightarrow> loaded_ok p (build_trip p t c rem)"
proof (induction p t c rem rule: build_trip.induct)
  case (1 p current_trip current_coord trip_remaining)
  show ?case
  proof (cases "0 < length trip_remaining")
    case False
    then show ?thesis using "1.prems" by (simp add: build_trip.simps [of p current_trip])
  next
    case True
    show ?thesis
    proof (cases "first_fit p current_trip (sorted_indices current_coord trip_remaining)")
      case None
      with True show ?thesis using "1.prems" by (simp add: build_trip.simps [of p current_trip])
    next
      case (Some r)
      have "loaded_ok p (current_trip @ [r])"
        using first_fit_fits [OF Some] by (simp add: loaded_ok_def)
      then have "loaded_ok p (build_trip p (current_trip @ [r]) (latitude r, longitude r)
                   (drop_label (idx r) trip_remaining))"
        by (rule "1.IH" [OF True Some])
      with True Some show ?thesis by (simp add: build_trip.simps [of p current_trip])
    qed
  qed
qed

lemma build_trip_fits:
  "build_trip p [] c rem \<noteq> [] \<Longrightarrow>
   can_fit_in_sleigh p (calculate_load_requirements (build_trip p [] c rem))"
  using build_trip_loaded_ok [of p "[]" c rem] by (simp add: loaded_ok_def)

lemma build_trip_subset: "set (build_trip p t c rem) \<subseteq> set t \<union> set rem"
proof (induction p t c rem rule: build_trip.induct)
  case (1 p current_trip current_coord trip_remaining)
  show ?case
  proof (cases "0 < length trip_remaining")
    case False
    then show ?thesis by (simp add: build_trip.simps [of p current_trip])
  next
    case True
    show ?thesis
    proof (cases "first_fit p current_trip (sorted_indices current_coord trip_remaining)")
      case None
      with True show ?thesis by (simp add: build_trip.simps [of p current_trip])
    next
      case (Some r)
      have r: "r \<in> set trip_remaining" using first_fit_mem [OF Some] by (simp add: set_sorted_indices)
      have "set (build_trip p (current_trip @ [r]) (latitude r, longitude r)
                   (drop_label (idx r) trip_remaining))
            \<subseteq> set (current_trip @ [r]) \<union> set (drop_label (idx r) trip_remaining)"
        by (rule "1.IH" [OF True Some])
      also have "\<dots> \<subseteq> set current_trip \<union> set trip_remaining"
        using r by (auto simp: drop_label_def)
      finally show ?thesis using True Some by (simp add: build_trip.simps [of p current_trip])
    qed
  qed
qed

lemma build_trip_distinct:
  "distinct (map idx (t @ rem)) \<Longrightarrow> distinct (map idx (build_trip p t c rem))"
proof (induction p t c rem rule: build_trip.induct)
  case (1 p current_trip current_coord trip_remaining)
  show ?case
  proof (cases "0 < length trip_remaining")
    case False
    then show ?thesis using "1.prems" by (simp add: build_trip.simps [of p current_trip])
  next
    case True
    show ?thesis
    proof (cases "first_fit p current_trip (sorted_indices current_coord trip_remaining)")
      case None
      with True show ?thesis using "1.prems" by (simp add: build_trip.simps [of p current_trip])
    next
      case (Some r)
      have r: "r \<in> set trip_remaining" using first_fit_mem [OF Some] by (simp add: set_sorted_indices)
      have "distinct (map idx ((current_trip @ [r]) @ drop_label (idx r) trip_remaining))"
        using "1.prems" r by (auto simp: drop_label_def distinct_map_filter)
      then have "distinct (map idx (build_trip p (current_trip @ [r]) (latitude r, longitude r)
                   (drop_label (idx r) trip_remaining)))"
        by (rule "1.IH" [OF True Some])
      then show ?thesis using True Some by (simp add: build_trip.simps [of p current_trip])
    qed
  qed
qed

lemma build_trip_length: "length t \<le> length (build_trip p t c rem)"
proof (induction p t c rem rule: build_trip.induct)
  case (1 p current_trip current_coord trip_remaining)
  show ?case
  proof (cases "0 < length trip_remaining")
    case False
    then show ?thesis by (simp add: build_trip.simps [of p current_trip])
  next
    case True
    show ?thesis
    proof (cases "first_fit p current_trip (sorted_indices current_coord trip_remaining)")
      case None
      with True show ?thesis by (simp add: build_trip.simps [of p current_trip])
    next
      case (Some r)
      have "length (current_trip @ [r]) \<le> length (build_trip p (current_trip @ [r]) (latitude r, longitude r)
                   (drop_label (idx r) trip_remaining))"
        by (rule "1.IH" [OF True Some])
      then show ?thesis using True Some by (simp add: build_trip.simps [of p current_trip])
    qed
  qed
qed

lemma load_single: "calculate_load_requirements [r] = [(wish r, 1)]"
  by (simp add: calculate_load_requirements_def)

lemma first_fit_first:
  "cs \<noteq> [] \<Longrightarrow> can_fit_in_sleigh p (calculate_load_requirements (t @ [hd cs])) \<Longrightarrow>
   first_fit p t cs = Some (hd cs)"
  by (cases cs) (simp_all add: Let_def)

lemma build_trip_nonempty:
  assumes "rem \<noteq> []" and "\<forall>r\<in>set rem. can_fit_in_sleigh p [(wish r, 1)]"
  shows "build_trip p [] c rem \<noteq> []"
proof -
  let ?cs = "sorted_indices c rem"
  have ne: "?cs \<noteq> []" using assms(1) set_sorted_indices [of c rem] by (metis set_empty)
  then have "hd ?cs \<in> set rem" using set_sorted_indices [of c rem] hd_in_set by blast
  then have "can_fit_in_sleigh p (calculate_load_requirements ([] @ [hd ?cs]))"
    using assms(2) by (simp add: load_single)
  then have ff: "first_fit p [] ?cs = Some (hd ?cs)" by (rule first_fit_first [OF ne])
  have "length ([] @ [hd ?cs]) \<le> length (build_trip p ([] @ [hd ?cs]) (latitude (hd ?cs), longitude (hd ?cs))
           (drop_label (idx (hd ?cs)) rem))"
    by (rule build_trip_length)
  moreover have "build_trip p [] c rem = build_trip p ([] @ [hd ?cs]) (latitude (hd ?cs), longitude (hd ?cs))
           (drop_label (idx (hd ?cs)) rem)"
    using assms(1) ff by (subst build_trip.simps) simp
  ultimately show ?thesis by auto
qed

lemma drop_labels_mset:
  assumes "distinct (map idx rem)" and "distinct (map idx ct)" and "set ct \<subseteq> set rem"
  shows "mset ct + mset (drop_labels (map idx ct) rem) = mset rem"
proof -
  have inj: "inj_on idx (set rem)" using assms(1) by (simp add: distinct_map)
  have eq: "\<And>r. r \<in> set rem \<Longrightarrow> (idx r \<in> idx ` set ct) = (r \<in> set ct)"
    using inj assms(3) by (auto simp: inj_on_def)
  have f: "drop_labels (map idx ct) rem = filter (\<lambda>r. r \<notin> set ct) rem"
    unfolding drop_labels_def by (rule filter_cong) (simp_all add: eq)
  have d1: "distinct ct" using assms(2) by (simp add: distinct_map)
  have d2: "distinct rem" using assms(1) by (simp add: distinct_map)
  have "set (filter (\<lambda>r. r \<in> set ct) rem) = set ct" using assms(3) by auto
  moreover have "distinct (filter (\<lambda>r. r \<in> set ct) rem)" using d2 by simp
  ultimately have "mset (filter (\<lambda>r. r \<in> set ct) rem) = mset ct"
    using set_eq_iff_mset_eq_distinct d1 by blast
  moreover have "mset (filter (\<lambda>r. r \<in> set ct) rem) + mset (filter (\<lambda>r. r \<notin> set ct) rem) = mset rem"
    by (simp add: mset_filter)
  ultimately show ?thesis by (simp add: f)
qed

lemma drop_labels_shorter:
  assumes "ct \<noteq> []" and "set ct \<subseteq> set rem"
  shows "length (drop_labels (map idx ct) rem) < length rem"
proof -
  have "hd ct \<in> set rem" using assms by (metis hd_in_set subsetD)
  moreover have "\<not> (idx (hd ct) \<notin> set (map idx ct))" using assms(1) by simp
  ultimately show ?thesis unfolding drop_labels_def by (rule length_filter_less)
qed

lemma cluster_loop_returns:
  "\<forall>r\<in>set remaining. can_fit_in_sleigh p [(wish r, 1)] \<Longrightarrow>
   \<exists>result. cluster_loop p remaining trips = Some result"
proof (induction "length remaining" arbitrary: remaining trips rule: less_induct)
  case less
  show ?case
  proof (cases "remaining = []")
    case True
    then show ?thesis by (simp add: cluster_loop_done)
  next
    case False
    let ?ct = "build_trip p [] north_pole remaining"
    have ne: "?ct \<noteq> []" by (rule build_trip_nonempty [OF False less.prems])
    have sub: "set ?ct \<subseteq> set remaining" using build_trip_subset [of p "[]" north_pole remaining] by simp
    have shorter: "length (drop_labels (map idx ?ct) remaining) < length remaining"
      by (rule drop_labels_shorter [OF ne sub])
    have fit: "\<forall>r\<in>set (drop_labels (map idx ?ct) remaining). can_fit_in_sleigh p [(wish r, 1)]"
      using less.prems by (simp add: drop_labels_def)
    have "\<exists>result. cluster_loop p (drop_labels (map idx ?ct) remaining) (trips @ [?ct]) = Some result"
      by (rule less.hyps [OF shorter fit])
    then show ?thesis by (simp only: cluster_loop_step [OF False ne])
  qed
qed

lemma cluster_loop_covers:
  assumes "cluster_loop p remaining trips = Some result" and "distinct (map idx remaining)"
  shows "mset (concat result) = mset (concat trips) + mset remaining"
proof -
  let ?I = "\<lambda>rem ts. distinct (map idx rem) \<and> mset (concat ts) + mset rem = mset (concat trips) + mset remaining"
  have "?I [] result"
  proof (rule cluster_loop_invariant [where I = ?I, OF assms(1)])
    show "?I remaining trips" using assms(2) by simp
  next
    fix rem ts
    assume inv: "?I rem ts" and "rem \<noteq> []" and "build_trip p [] north_pole rem \<noteq> []"
    let ?ct = "build_trip p [] north_pole rem"
    have sub: "set ?ct \<subseteq> set rem" using build_trip_subset [of p "[]" north_pole rem] by simp
    have dr: "distinct (map idx rem)" using inv by simp
    have dc: "distinct (map idx ?ct)" using dr build_trip_distinct [of "[]" rem p north_pole] by simp
    have "mset ?ct + mset (drop_labels (map idx ?ct) rem) = mset rem"
      by (rule drop_labels_mset [OF dr dc sub])
    moreover have "distinct (map idx (drop_labels (map idx ?ct) rem))"
      using dr by (simp add: drop_labels_def distinct_map_filter)
    ultimately show "?I (drop_labels (map idx ?ct) rem) (ts @ [?ct])"
      using inv by (simp add: add.assoc)
  qed
  then show ?thesis by simp
qed

section \<open>The example inputs, evaluated\<close>

lemmas eval_defs = pole_child_def equator_child_def north_pole_def
      sorted_indices_def distances_from_def drop_label_def drop_labels_def
      calculate_load_requirements_def can_fit_in_sleigh_def add_article_def get_article_info_def
      haversine_distance_same haversine_distance_nonneg Let_def

lemma build_two: "build_trip two_wishes [] north_pole [pole_child, equator_child] = [pole_child, equator_child]"
  by (simp add: build_trip.simps two_wishes_def eval_defs)

lemma greedy_two: "greedy_cluster_by_capacity two_wishes = Some [[pole_child, equator_child]]"
proof -
  have g: "good_children two_wishes = [pole_child, equator_child]" by (simp add: two_wishes_def)
  have d: "drop_labels (map idx [pole_child, equator_child]) [pole_child, equator_child] = []"
    by (simp add: drop_labels_def pole_child_def equator_child_def)
  have "cluster_loop two_wishes [pole_child, equator_child] []
          = cluster_loop two_wishes [] [[pole_child, equator_child]]"
    by (subst cluster_loop_step) (simp_all only: build_two d, simp_all)
  then show ?thesis
    unfolding greedy_cluster_by_capacity_def g by (simp only: cluster_loop_done)
qed

lemma build_small_1: "build_trip small_sleigh [] north_pole [pole_child, equator_child] = [pole_child]"
  by (simp add: build_trip.simps small_sleigh_def eval_defs)

lemma build_small_2: "build_trip small_sleigh [] north_pole [equator_child] = [equator_child]"
  by (simp add: build_trip.simps small_sleigh_def eval_defs)

lemma greedy_small: "greedy_cluster_by_capacity small_sleigh = Some [[pole_child], [equator_child]]"
proof -
  have g: "good_children small_sleigh = [pole_child, equator_child]" by (simp add: small_sleigh_def)
  have d1: "drop_labels (map idx [pole_child]) [pole_child, equator_child] = [equator_child]"
    by (simp add: drop_labels_def pole_child_def equator_child_def)
  have d2: "drop_labels (map idx [equator_child]) [equator_child] = []"
    by (simp add: drop_labels_def)
  have "cluster_loop small_sleigh [pole_child, equator_child] []
          = cluster_loop small_sleigh [equator_child] [[pole_child]]"
    by (subst cluster_loop_step) (simp_all only: build_small_1 d1, simp_all)
  also have "\<dots> = cluster_loop small_sleigh [] [[pole_child], [equator_child]]"
    by (subst cluster_loop_step) (simp_all only: build_small_2 d2, simp_all)
  finally show ?thesis
    unfolding greedy_cluster_by_capacity_def g by (simp only: cluster_loop_done)
qed

lemma not_less_distance: "\<not> haversine_distance a b < 0"
  using haversine_distance_nonneg [of a b] by simp

lemma route_pole: "optimize_trip_route p [pole_child] = [pole_child]"
  by (simp add: optimize_trip_route_def nearest_neighbor_from_point_def
      nearest_neighbor_loop.simps eval_defs)

lemma route_equator: "optimize_trip_route p [equator_child] = [equator_child]"
  by (simp add: optimize_trip_route_def nearest_neighbor_from_point_def
      nearest_neighbor_loop.simps eval_defs)

lemma route_both: "optimize_trip_route p [pole_child, equator_child] = [pole_child, equator_child]"
  by (simp add: optimize_trip_route_def nearest_neighbor_from_point_def
      nearest_neighbor_loop.simps eval_defs not_less_distance)

section \<open>TripBuilder: the saved trips are non-empty and pass the check\<close>

lemma cluster_loop_trips_ok:
  assumes "cluster_loop p remaining trips = Some result" and "trips_ok p trips"
  shows "trips_ok p result"
proof (rule cluster_loop_invariant [where I = "\<lambda>rem ts. trips_ok p ts", OF assms])
  fix rem ts
  assume ok: "trips_ok p ts" and ne: "build_trip p [] north_pole rem \<noteq> []"
  from build_trip_fits [OF ne] ne ok
  show "trips_ok p (ts @ [build_trip p [] north_pole rem])" by (simp add: trips_ok_def)
qed

section \<open>TripBuilder: no returned trip is empty\<close>

lemma nearest_neighbor_loop_length:
  "length ordered \<le> length (nearest_neighbor_loop c remaining ordered)"
proof (induction c remaining ordered rule: nearest_neighbor_loop.induct)
  case (1 current_coord remaining ordered)
  show ?case
  proof (cases "0 < length remaining")
    case False
    then show ?thesis by (subst nearest_neighbor_loop.simps) simp
  next
    case True
    let ?n = "idxmin (distances_from current_coord remaining)"
    have "length (ordered @ [?n]) \<le> length (nearest_neighbor_loop (latitude ?n, longitude ?n)
             (drop_label (idx ?n) remaining) (ordered @ [?n]))"
      by (rule "1.IH" [OF True refl refl])
    then show ?thesis using True
      by (subst nearest_neighbor_loop.simps) (simp add: Let_def)
  qed
qed

lemma nearest_neighbor_nonempty:
  assumes "df \<noteq> []"
  shows "nearest_neighbor_from_point c df \<noteq> []"
proof -
  let ?n = "idxmin (distances_from c df)"
  have "nearest_neighbor_loop c df [] = nearest_neighbor_loop (latitude ?n, longitude ?n)
         (drop_label (idx ?n) df) ([] @ [?n])"
    using assms by (subst nearest_neighbor_loop.simps) (simp add: Let_def)
  moreover have "length ([] @ [?n]) \<le> length (nearest_neighbor_loop (latitude ?n, longitude ?n)
         (drop_label (idx ?n) df) ([] @ [?n]))"
    by (rule nearest_neighbor_loop_length)
  ultimately have "nearest_neighbor_loop c df [] \<noteq> []" by auto
  then show ?thesis using assms by (simp add: nearest_neighbor_from_point_def)
qed

text \<open>
  C10. Every trip of the sequence \<open>greedy_cluster_by_capacity\<close> returns has at least
  one stop, and the plan generated from the trips is, trip after trip, a non-empty block
  of refill entries followed by a non-empty block of delivery entries.
\<close>

theorem greedy_trips_nonempty:
  assumes "greedy_cluster_by_capacity p = Some trips"
  shows "(\<forall>trip\<in>set trips. trip \<noteq> [] \<and> refill_entries trip \<noteq> [] \<and> delivery_entries p trip \<noteq> []) \<and>
         generate_route_plan p =
           Some (concat (map (\<lambda>trip. refill_entries trip @ delivery_entries p trip) trips))"
proof -
  have "trips_ok p trips"
    using assms unfolding greedy_cluster_by_capacity_def
    by (rule cluster_loop_trips_ok) (simp add: trips_ok_def)
  then have ne: "\<forall>trip\<in>set trips. trip \<noteq> []" by (simp add: trips_ok_def list_all_iff)
  have r: "refill_entries trip \<noteq> []" if "trip \<noteq> []" for trip
  proof -
    have "length (refill_entries trip) = length (remdups (map wish trip))"
      by (simp add: refill_entries_def calculate_load_requirements_def Let_def)
    moreover have "remdups (map wish trip) \<noteq> []" using that by simp
    ultimately show ?thesis by auto
  qed
  have d: "delivery_entries p trip \<noteq> []" if "trip \<noteq> []" for trip
    using nearest_neighbor_nonempty [OF that] by (simp add: delivery_entries_def optimize_trip_route_def)
  show ?thesis using ne r d assms by (simp add: generate_route_plan_def plan_of_trips_def)
qed

theorem greedy_trips_nonempty_witness:
  "greedy_cluster_by_capacity small_sleigh = Some [[pole_child], [equator_child]] \<and>
   generate_route_plan small_sleigh =
     Some [\<lparr>stop = 0, entry_article = Some 1, pieces = Some 1\<rparr>,
           \<lparr>stop = 1, entry_article = None, pieces = None\<rparr>,
           \<lparr>stop = 0, entry_article = Some 2, pieces = Some 1\<rparr>,
           \<lparr>stop = 2, entry_article = None, pieces = None\<rparr>]"
proof -
  have r: "refill_entries [pole_child] = [\<lparr>stop = 0, entry_article = Some 1, pieces = Some 1\<rparr>]"
    "refill_entries [equator_child] = [\<lparr>stop = 0, entry_article = Some 2, pieces = Some 1\<rparr>]"
    by (simp_all add: refill_entries_def calculate_load_requirements_def pole_child_def equator_child_def)
  have d: "delivery_entries small_sleigh [pole_child] = [\<lparr>stop = 1, entry_article = None, pieces = None\<rparr>]"
    "delivery_entries small_sleigh [equator_child] = [\<lparr>stop = 2, entry_article = None, pieces = None\<rparr>]"
    by (simp_all add: delivery_entries_def route_pole route_equator) (simp_all add: pole_child_def equator_child_def)
  show ?thesis using greedy_trips_nonempty [OF greedy_small] greedy_small by (simp add: r d)
qed

section \<open>TripBuilder: the returned trips and the capacity limits\<close>















section \<open>TripBuilder: a wish that cannot fit keeps the loop running\<close>

lemma sum_list_member_le:
  fixes f :: "'a \<Rightarrow> real"
  assumes "\<forall>y\<in>set xs. 0 \<le> f y" and "a \<in> set xs"
  shows "f a \<le> (\<Sum>y\<leftarrow>xs. f y)"
  using assms
proof (induction xs)
  case Nil
  then show ?case by simp
next
  case (Cons x xs)
  have nn: "0 \<le> (\<Sum>y\<leftarrow>xs. f y)" using Cons.prems(1) by (intro sum_list_nonneg) auto
  show ?case
  proof (cases "a = x")
    case True
    then show ?thesis using nn by simp
  next
    case False
    then have "f a \<le> (\<Sum>y\<leftarrow>xs. f y)" using Cons by simp
    moreover have "0 \<le> f x" using Cons.prems(1) by simp
    ultimately show ?thesis by simp
  qed
qed

lemma item_nonneg: "catalog_nonneg p \<Longrightarrow> 0 \<le> item_weight p a \<and> 0 \<le> item_volume p a"
proof (cases "find (\<lambda>r. article r = a) (articles p)")
  case None
  then show ?thesis by (simp add: item_weight_def item_volume_def)
next
  case (Some r)
  assume "catalog_nonneg p"
  moreover have "r \<in> set (articles p)" using Some by (auto simp: find_Some_iff)
  ultimately have "0 \<le> weight r \<and> 0 \<le> volume r" by (simp add: catalog_nonneg_def list_all_iff)
  with Some show ?thesis by (simp add: item_weight_def item_volume_def)
qed

lemma single_fits_in_trip:
  assumes nn: "catalog_nonneg p" and x: "x \<in> set t"
    and fit: "can_fit_in_sleigh p (calculate_load_requirements t)"
  shows "can_fit_in_sleigh p [(wish x, 1)]"
proof -
  let ?ws = "map wish t"
  let ?fw = "\<lambda>a. real_of_int (int (count_list ?ws a)) * item_weight p a"
  let ?fv = "\<lambda>a. real_of_int (int (count_list ?ws a)) * item_volume p a"
  have mem: "wish x \<in> set (remdups ?ws)" using x by simp
  have c1: "1 \<le> count_list ?ws (wish x)"
  proof -
    have "count_list ?ws (wish x) \<noteq> 0" using mem by (simp add: count_list_0_iff)
    then show ?thesis by simp
  qed
  have nnw: "\<forall>a\<in>set (remdups ?ws). 0 \<le> ?fw a" using item_nonneg [OF nn] by simp
  have nnv: "\<forall>a\<in>set (remdups ?ws). 0 \<le> ?fv a" using item_nonneg [OF nn] by simp
  have w1: "item_weight p (wish x) \<le> ?fw (wish x)"
    using c1 item_nonneg [OF nn, of "wish x"] by (simp add: mult_le_cancel_right1)
  have v1: "item_volume p (wish x) \<le> ?fv (wish x)"
    using c1 item_nonneg [OF nn, of "wish x"] by (simp add: mult_le_cancel_right1)
  have w2: "?fw (wish x) \<le> (\<Sum>a\<leftarrow>remdups ?ws. ?fw a)" by (rule sum_list_member_le [OF nnw mem])
  have v2: "?fv (wish x) \<le> (\<Sum>a\<leftarrow>remdups ?ws. ?fv a)" by (rule sum_list_member_le [OF nnv mem])
  have "(\<Sum>a\<leftarrow>remdups ?ws. ?fw a) \<le> max_weight p" "(\<Sum>a\<leftarrow>remdups ?ws. ?fv a) \<le> max_volume p"
    using fit by (simp_all add: can_fit_in_sleigh_fits_spec fits_spec_def
        calculate_load_requirements_def Let_def comp_def)
  with w1 w2 v1 v2 show ?thesis
    by (simp add: can_fit_in_sleigh_fits_spec fits_spec_def)
qed

text \<open>
  C1 asks that trip construction ends on every input, with a reported failure when some
  child's wish alone is over the capacity. The loop does the opposite: with a catalog of
  non-negative weights and volumes and distinct index labels, a good child whose wish
  alone does not fit is never put on a trip and never leaves \<open>remaining\<close>, so
  \<open>greedy_cluster_by_capacity\<close> never returns.
\<close>

theorem greedy_never_returns:
  assumes "catalog_nonneg p" and "distinct (map idx (good_children p))"
    and "x \<in> set (good_children p)" and "\<not> can_fit_in_sleigh p [(wish x, 1)]"
  shows "greedy_cluster_by_capacity p = None"
proof (rule ccontr)
  assume "greedy_cluster_by_capacity p \<noteq> None"
  then obtain trips where t: "cluster_loop p (good_children p) [] = Some trips"
    by (auto simp: greedy_cluster_by_capacity_def)
  let ?I = "\<lambda>rem (ts :: child_row list list). distinct (map idx rem) \<and> x \<in> set rem"
  have "?I [] trips"
  proof (rule cluster_loop_invariant [where I = ?I, OF t])
    show "?I (good_children p) []" using assms by simp
  next
    fix rem ts
    assume inv: "?I rem ts" and ne: "build_trip p [] north_pole rem \<noteq> []"
    let ?ct = "build_trip p [] north_pole rem"
    have sub: "set ?ct \<subseteq> set rem" using build_trip_subset [of p "[]" north_pole rem] by simp
    have inj: "inj_on idx (set rem)" using inv by (simp add: distinct_map)
    have "x \<notin> set ?ct"
      using single_fits_in_trip [OF assms(1) _ build_trip_fits [OF ne], of x] assms(4) by blast
    then have "idx x \<notin> idx ` set ?ct" using inj sub inv by (auto simp: inj_on_def)
    then have "x \<in> set (drop_labels (map idx ?ct) rem)" using inv by (simp add: drop_labels_def)
    moreover have "distinct (map idx (drop_labels (map idx ?ct) rem))"
      using inv by (simp add: drop_labels_def distinct_map_filter)
    ultimately show "?I (drop_labels (map idx ?ct) rem) (ts @ [?ct])" by simp
  qed
  then show False by simp
qed

theorem greedy_never_returns_witness:
  "catalog_nonneg too_heavy \<and> distinct (map idx (good_children too_heavy)) \<and>
   equator_child \<in> set (good_children too_heavy) \<and>
   \<not> can_fit_in_sleigh too_heavy [(wish equator_child, 1)] \<and>
   greedy_cluster_by_capacity too_heavy = None"
proof -
  have a: "catalog_nonneg too_heavy" by (simp add: catalog_nonneg_def too_heavy_def)
  have b: "distinct (map idx (good_children too_heavy))" by (simp add: too_heavy_def)
  have c: "equator_child \<in> set (good_children too_heavy)" by (simp add: too_heavy_def)
  have d: "\<not> can_fit_in_sleigh too_heavy [(wish equator_child, 1)]"
    by (simp add: too_heavy_def eval_defs)
  show ?thesis using greedy_never_returns [OF a b c d] a b c d by simp
qed

section \<open>The refill count of the statistics\<close>

lemma nearest_neighbor_loop_subset:
  "set (nearest_neighbor_loop c remaining ordered) \<subseteq> set ordered \<union> set remaining"
proof (induction c remaining ordered rule: nearest_neighbor_loop.induct)
  case (1 current_coord remaining ordered)
  show ?case
  proof (cases "0 < length remaining")
    case False
    then show ?thesis by (subst nearest_neighbor_loop.simps) simp
  next
    case True
    let ?n = "idxmin (distances_from current_coord remaining)"
    have n: "?n \<in> set remaining" using True by (intro nearest_mem) auto
    have "set (nearest_neighbor_loop (latitude ?n, longitude ?n)
             (drop_label (idx ?n) remaining) (ordered @ [?n]))
          \<subseteq> set (ordered @ [?n]) \<union> set (drop_label (idx ?n) remaining)"
      by (rule "1.IH" [OF True refl refl])
    also have "\<dots> \<subseteq> set ordered \<union> set remaining" using n by (auto simp: drop_label_def)
    finally show ?thesis using True
      by (subst nearest_neighbor_loop.simps) (simp add: Let_def)
  qed
qed

lemma optimize_trip_route_subset: "set (optimize_trip_route p trip) \<subseteq> set trip"
  using nearest_neighbor_loop_subset [of north_pole trip "[]"]
  by (simp add: optimize_trip_route_def nearest_neighbor_from_point_def)

lemma total_refills_append: "total_refills (xs @ ys) = total_refills xs + total_refills ys"
  by (simp add: total_refills_def)

lemma total_refills_refill_entries:
  "total_refills (refill_entries trip) = length (remdups (map wish trip))"
  by (simp add: total_refills_def refill_entries_def calculate_load_requirements_def Let_def)

lemma total_refills_delivery_entries:
  assumes "\<forall>c\<in>set trip. child c \<noteq> 0"
  shows "total_refills (delivery_entries p trip) = 0"
proof -
  have "\<forall>c\<in>set (optimize_trip_route p trip). child c \<noteq> 0"
    using assms optimize_trip_route_subset [of p trip] by blast
  then show ?thesis
    by (simp add: total_refills_def delivery_entries_def filter_empty_conv)
qed

lemma total_refills_plan:
  assumes "\<forall>trip\<in>set trips. \<forall>c\<in>set trip. child c \<noteq> 0"
  shows "total_refills (plan_of_trips p trips) = (\<Sum>trip\<leftarrow>trips. length (remdups (map wish trip)))"
  using assms
proof (induction trips)
  case Nil
  show ?case by (simp add: plan_of_trips_def total_refills_def)
next
  case (Cons trip trips)
  have "plan_of_trips p (trip # trips) = refill_entries trip @ delivery_entries p trip @ plan_of_trips p trips"
    by (simp add: plan_of_trips_def)
  then show ?case using Cons
    by (simp add: total_refills_append total_refills_refill_entries total_refills_delivery_entries)
qed

lemma cluster_loop_members:
  assumes "cluster_loop p remaining trips = Some result"
  shows "set (concat result) \<subseteq> set (concat trips) \<union> set remaining"
proof -
  let ?I = "\<lambda>rem ts. set (concat ts) \<union> set rem \<subseteq> set (concat trips) \<union> set remaining"
  have "?I [] result"
  proof (rule cluster_loop_invariant [where I = ?I, OF assms])
    show "?I remaining trips" by simp
  next
    fix rem ts
    assume inv: "?I rem ts"
    have "set (build_trip p [] north_pole rem) \<subseteq> set rem"
      using build_trip_subset [of p "[]" north_pole rem] by simp
    then show "?I (drop_labels (map idx (build_trip p [] north_pole rem)) rem)
                 (ts @ [build_trip p [] north_pole rem])"
      using inv by (auto simp: drop_labels_def)
  qed
  then show ?thesis by simp
qed

lemma distinct_wishes_ge_trips:
  assumes "\<forall>trip\<in>set trips. trip \<noteq> []"
  shows "length trips \<le> (\<Sum>trip\<leftarrow>trips. length (remdups (map wish trip)))"
  using assms
proof (induction trips)
  case Nil
  show ?case by simp
next
  case (Cons trip trips)
  have "remdups (map wish trip) \<noteq> []" using Cons.prems by simp
  then have "1 \<le> length (remdups (map wish trip))" by (simp add: Suc_le_eq)
  moreover have "length trips \<le> (\<Sum>trip\<leftarrow>trips. length (remdups (map wish trip)))"
    using Cons by simp
  ultimately show ?case by simp
qed

text \<open>
  C4, as amended. For every generated plan in which no good child has the identifier 0,
  the refill count that \<open>save_statistics\<close> reports is the number of refill entries of
  the plan, one for each distinct article wished in each trip: the sum over the trips of
  the number of distinct wishes of the trip. It is at least the number of trips.
\<close>

theorem total_refills_counts_articles:
  assumes "generate_route_plan p = Some plan" and "\<forall>c\<in>set (good_children p). child c \<noteq> 0"
  shows "\<exists>trips. greedy_cluster_by_capacity p = Some trips \<and>
           total_refills plan = (\<Sum>trip\<leftarrow>trips. length (remdups (map wish trip))) \<and>
           length trips \<le> total_refills plan"
proof -
  from assms(1) obtain trips where t: "greedy_cluster_by_capacity p = Some trips"
    and pl: "plan = plan_of_trips p trips"
    by (auto simp: generate_route_plan_def)
  have "set (concat trips) \<subseteq> set (good_children p)"
    using cluster_loop_members [of p "good_children p" "[]" trips] t
    by (simp add: greedy_cluster_by_capacity_def)
  then have ids: "\<forall>trip\<in>set trips. \<forall>c\<in>set trip. child c \<noteq> 0" using assms(2) by auto
  have "trips_ok p trips"
    using t unfolding greedy_cluster_by_capacity_def
    by (rule cluster_loop_trips_ok) (simp add: trips_ok_def)
  then have ne: "\<forall>trip\<in>set trips. trip \<noteq> []" by (simp add: trips_ok_def list_all_iff)
  have "total_refills plan = (\<Sum>trip\<leftarrow>trips. length (remdups (map wish trip)))"
    unfolding pl by (rule total_refills_plan [OF ids])
  with distinct_wishes_ge_trips [OF ne] t show ?thesis by simp
qed

lemma plan_two:
  "generate_route_plan two_wishes =
     Some [\<lparr>stop = 0, entry_article = Some 1, pieces = Some 1\<rparr>,
           \<lparr>stop = 0, entry_article = Some 2, pieces = Some 1\<rparr>,
           \<lparr>stop = 1, entry_article = None, pieces = None\<rparr>,
           \<lparr>stop = 2, entry_article = None, pieces = None\<rparr>]"
proof -
  have r: "refill_entries [pole_child, equator_child] =
      [\<lparr>stop = 0, entry_article = Some 1, pieces = Some 1\<rparr>,
       \<lparr>stop = 0, entry_article = Some 2, pieces = Some 1\<rparr>]"
    by (simp add: refill_entries_def calculate_load_requirements_def pole_child_def equator_child_def)
  have d: "delivery_entries two_wishes [pole_child, equator_child] =
      [\<lparr>stop = 1, entry_article = None, pieces = None\<rparr>,
       \<lparr>stop = 2, entry_article = None, pieces = None\<rparr>]"
    by (simp add: delivery_entries_def route_both) (simp add: pole_child_def equator_child_def)
  show ?thesis by (simp add: generate_route_plan_def greedy_two plan_of_trips_def r d)
qed

theorem total_refills_counts_articles_witness:
  "generate_route_plan two_wishes =
     Some [\<lparr>stop = 0, entry_article = Some 1, pieces = Some 1\<rparr>,
           \<lparr>stop = 0, entry_article = Some 2, pieces = Some 1\<rparr>,
           \<lparr>stop = 1, entry_article = None, pieces = None\<rparr>,
           \<lparr>stop = 2, entry_article = None, pieces = None\<rparr>] \<and>
   child pole_child \<noteq> 0 \<and> child equator_child \<noteq> 0 \<and>
   greedy_cluster_by_capacity two_wishes = Some [[pole_child, equator_child]] \<and>
   total_refills [\<lparr>stop = 0, entry_article = Some 1, pieces = Some 1\<rparr>,
           \<lparr>stop = 0, entry_article = Some 2, pieces = Some 1\<rparr>,
           \<lparr>stop = 1, entry_article = None, pieces = None\<rparr>,
           \<lparr>stop = 2, entry_article = None, pieces = None\<rparr>]
     = length (remdups (map wish [pole_child, equator_child]))"
proof -
  have ids: "\<forall>c\<in>set (good_children two_wishes). child c \<noteq> 0"
    by (simp add: two_wishes_def pole_child_def equator_child_def)
  show ?thesis
    using total_refills_counts_articles [OF plan_two ids] plan_two greedy_two
    by (simp add: pole_child_def equator_child_def)
qed

text \<open>
  The claim as stated fails: the two children of \<open>two_wishes\<close> wish different
  articles and share the one trip, which gets two refill entries.
\<close>

theorem total_refills_counterexample:
  "map_option length (greedy_cluster_by_capacity two_wishes) = Some 1 \<and>
   map_option total_refills (generate_route_plan two_wishes) = Some 2"
  by (simp add: greedy_two plan_two total_refills_def)

section \<open>Ties between rows at equal distance\<close>





end
